theory Spec2Isabelle
  imports Main
begin

section \<open>The router shell of \<^verbatim>\<open>frontend/src/components/HomePage.js\<close>\<close>

text \<open>
  \<^verbatim>\<open>HomePage.render\<close> returns a \<^verbatim>\<open>Router\<close> holding one \<^verbatim>\<open>Switch\<close> with five \<^verbatim>\<open>Route\<close>
  children (lines 16 to 24). The file itself holds the route table only; what a \<^verbatim>\<open>Route\<close>
  matches and what a \<^verbatim>\<open>Switch\<close> renders is the behaviour of the components imported on
  line 2 from \<^verbatim>\<open>react-router-dom\<close> (the release line that exports \<^verbatim>\<open>Switch\<close>, version 5,
  whose \<^verbatim>\<open>matchPath\<close> compiles a pattern with \<^verbatim>\<open>path-to-regexp\<close> 1.x). The embedding has
  two layers: the table, transcribed from the source, and the library functions the
  table is handed to, transcribed from the library. The path the switch works on is the
  \<^verbatim>\<open>location.pathname\<close> of the router; how the \<^verbatim>\<open>BrowserRouter\<close> of line 16 gets it from
  the path of the URL (it decodes it) and the cache \<^verbatim>\<open>matchPath\<close> keeps between calls are
  modelled after the switch itself.
\<close>

subsection \<open>Data\<close>

text \<open>The four page components imported on lines 4 to 7.\<close>

datatype component = UserGenPage | MakerPage | BookPage | OrderPage

text \<open>A literal child element; the only one in the file is \<^verbatim>\<open><p>...</p>\<close> on line 19.\<close>

datatype element = P string

text \<open>The props of one \<^verbatim>\<open><Route>\<close> element: \<^verbatim>\<open>path\<close>, \<^verbatim>\<open>exact\<close>, \<^verbatim>\<open>component\<close> and children.\<close>

record route =
  path :: string
  exact :: bool
  component :: "component option"
  children :: "element option"

text \<open>
  A location, the browser's or the router's: path, query and fragment. \<^verbatim>\<open>Switch\<close> reads
  \<^verbatim>\<open>location.pathname\<close> only.
\<close>

record location =
  pathname :: string
  search :: string
  hash :: string

text \<open>The match object \<^verbatim>\<open>matchPath\<close> returns: \<^verbatim>\<open>{ path, url, isExact, params }\<close>.\<close>

record match =
  m_path :: string
  m_url :: string
  m_isExact :: bool
  m_params :: "(string \<times> string) list"

text \<open>
  What a \<^verbatim>\<open>Route\<close> renders: its children as they are, or its component created with the
  route props (\<^verbatim>\<open>location\<close> and \<^verbatim>\<open>match\<close>). \<^verbatim>\<open>None\<close> stands for \<^verbatim>\<open>null\<close>: nothing rendered.
\<close>

datatype rendered = Static element | Element component location match

subsection \<open>The route table (lines 18 to 22)\<close>

definition routes :: "route list" where
  "routes =
    [\<lparr>path = ''/'', exact = True, component = Some UserGenPage, children = None\<rparr>,
     \<lparr>path = ''/home'', exact = False, component = None,
        children = Some (P ''You are at the start page'')\<rparr>,
     \<lparr>path = ''/make'', exact = False, component = Some MakerPage, children = None\<rparr>,
     \<lparr>path = ''/book'', exact = False, component = Some BookPage, children = None\<rparr>,
     \<lparr>path = ''/order/:orderId'', exact = False, component = Some OrderPage,
        children = None\<rparr>]"

subsection \<open>Compiling a pattern: \<^verbatim>\<open>path-to-regexp\<close>\<close>

text \<open>
  \<^verbatim>\<open>parse\<close> cuts a pattern into literal text and keys. The modelled syntax is literal
  characters and named parameters \<^verbatim>\<open>/:name\<close> (prefix \<^verbatim>\<open>/\<close>, name \<^verbatim>\<open>\w+\<close>, pattern
  \<^verbatim>\<open>[^\/]+?\<close>); a pattern using escapes, groups, the wildcard or a modifier after a key
  is outside the model and \<^verbatim>\<open>parse\<close> answers \<^verbatim>\<open>None\<close> for it. No pattern of the table does.
\<close>

datatype token = Lit string | Key string

definition is_word_char :: "char \<Rightarrow> bool" where
  "is_word_char c =
     (let n = (of_char c :: nat)
      in (48 \<le> n \<and> n \<le> 57) \<or> (65 \<le> n \<and> n \<le> 90) \<or> n = 95 \<or> (97 \<le> n \<and> n \<le> 122))"

definition push_path :: "string \<Rightarrow> token list \<Rightarrow> token list" where
  "push_path acc ts = (if acc = [] then ts else Lit acc # ts)"

function parse_from :: "string \<Rightarrow> string \<Rightarrow> token list option" where
  "parse_from acc [] = Some (push_path acc [])"
| "parse_from acc (c # cs) =
     (if c = CHR ''/'' \<and> take 1 cs = '':'' then
        (let name = takeWhile is_word_char (tl cs);
             rest = dropWhile is_word_char (tl cs)
         in if name = [] \<or> take 1 rest = ''('' \<or> take 1 rest = ''+''
               \<or> take 1 rest = ''*'' \<or> take 1 rest = ''?'' then None
            else (case parse_from [] rest of
                    None \<Rightarrow> None
                  | Some ts \<Rightarrow> Some (push_path acc (Key name # ts))))
      else if c = CHR 0x5C \<or> c = CHR ''('' \<or> c = CHR ''*'' \<or> c = CHR '':'' then None
      else parse_from (acc @ [c]) cs)"
  by pat_completeness auto
termination
proof (relation "measure (\<lambda>(acc, s). length s)")
  show "wf (measure (\<lambda>(acc, s). length s))" by simp
next
  fix acc :: string and c :: char and cs x xa :: string
  assume "xa = dropWhile is_word_char (tl cs)"
  moreover have "length (dropWhile is_word_char (tl cs)) \<le> length cs"
    by (rule order_trans [OF length_dropWhile_le]) simp
  ultimately show "(([], xa), (acc, c # cs)) \<in> measure (\<lambda>(acc, s). length s)"
    by simp
next
  fix acc :: string and c :: char and cs :: string
  show "((acc @ [c], cs), (acc, c # cs)) \<in> measure (\<lambda>(acc, s). length s)"
    by simp
qed

definition parse :: "string \<Rightarrow> token list option" where
  "parse str = parse_from [] str"

text \<open>The names of the keys, in order: the \<^verbatim>\<open>keys\<close> array filled by \<^verbatim>\<open>tokensToRegExp\<close>.\<close>

fun keys :: "token list \<Rightarrow> string list" where
  "keys [] = []"
| "keys (Lit l # ts) = keys ts"
| "keys (Key n # ts) = n # keys ts"

text \<open>
  Without \<^verbatim>\<open>strict\<close>, \<^verbatim>\<open>tokensToRegExp\<close> removes a delimiter that ends the route
  (\<^verbatim>\<open>route.slice(0, -delimiter.length)\<close>) before it appends the optional trailing slash.
\<close>

definition strip_delimiter :: "token list \<Rightarrow> token list" where
  "strip_delimiter ts =
     (case rev ts of
        Lit l # rs \<Rightarrow>
          (if l \<noteq> [] \<and> last l = CHR ''/'' then rev (Lit (butlast l) # rs) else ts)
      | _ \<Rightarrow> ts)"

subsection \<open>Running the compiled expression\<close>

text \<open>
  \<^verbatim>\<open>matchPath\<close> passes \<^verbatim>\<open>sensitive = false\<close>, so the expression has the flag \<^verbatim>\<open>i\<close>: two
  characters match when their canonical (upper case) forms are equal.
\<close>

definition canonicalize :: "char \<Rightarrow> char" where
  "canonicalize c =
     (case map_of (zip ''abcdefghijklmnopqrstuvwxyz'' ''ABCDEFGHIJKLMNOPQRSTUVWXYZ'') c of
        None \<Rightarrow> c
      | Some u \<Rightarrow> u)"

text \<open>Literal text at the start of the input; the answer is the input left over.\<close>

fun lit_match :: "string \<Rightarrow> string \<Rightarrow> string option" where
  "lit_match [] s = Some s"
| "lit_match (l # ls) [] = None"
| "lit_match (l # ls) (c # cs) =
     (if canonicalize l = canonicalize c then lit_match ls cs else None)"

text \<open>
  The end of the expression: \<^verbatim>\<open>(?:\/(?=$))?\<close> followed by \<^verbatim>\<open>$\<close> when \<^verbatim>\<open>end\<close> is set and by
  \<^verbatim>\<open>(?=\/|$)\<close> otherwise. The answer is the text it consumes.
\<close>

definition tail_match :: "bool \<Rightarrow> string \<Rightarrow> string option" where
  "tail_match e s =
     (if s = ''/'' then Some ''/''
      else if s = [] then Some []
      else if \<not> e \<and> take 1 s = ''/'' then Some []
      else None)"

fun first_some :: "('a \<Rightarrow> 'b option) \<Rightarrow> 'a list \<Rightarrow> 'b option" where
  "first_some f [] = None"
| "first_some f (x # xs) = (case f x of Some y \<Rightarrow> Some y | None \<Rightarrow> first_some f xs)"

text \<open>
  The anchored expression run on an input: the matched text and the captured values
  of the first match in backtracking order. A key is \<^verbatim>\<open>\/((?:[^\/]+?))\<close>: a slash, then
  the capture tried at every length from one character up to the whole run of
  characters other than \<^verbatim>\<open>/\<close>, shortest first.
\<close>

primrec match_tokens :: "token list \<Rightarrow> bool \<Rightarrow> string \<Rightarrow> (string \<times> string list) option" where
  "match_tokens [] e s = map_option (\<lambda>u. (u, [])) (tail_match e s)"
| "match_tokens (t # ts) e s =
     (case t of
        Lit l \<Rightarrow>
          (case lit_match l s of
             None \<Rightarrow> None
           | Some r \<Rightarrow>
               map_option (\<lambda>(u, vs). (take (length l) s @ u, vs)) (match_tokens ts e r))
      | Key n \<Rightarrow>
          (case s of
             [] \<Rightarrow> None
           | c # r \<Rightarrow>
               if c \<noteq> CHR ''/'' then None
               else first_some
                 (\<lambda>k. map_option (\<lambda>(u, vs). (c # take k r @ u, take k r # vs))
                        (match_tokens ts e (drop k r)))
                 [1 ..< Suc (length (takeWhile (\<lambda>x. x \<noteq> CHR ''/'') r))]))"

subsection \<open>\<^verbatim>\<open>matchPath\<close>, \<^verbatim>\<open>Route\<close> and \<^verbatim>\<open>Switch\<close>\<close>

definition matchPath :: "string \<Rightarrow> route \<Rightarrow> match option" where
  "matchPath pn r =
     (case parse (path r) of
        None \<Rightarrow> None
      | Some toks \<Rightarrow>
          (case match_tokens (strip_delimiter toks) (exact r) pn of
             None \<Rightarrow> None
           | Some (url, values) \<Rightarrow>
               (let isExact = (pn = url)
                in if exact r \<and> \<not> isExact then None
                   else Some \<lparr>m_path = path r,
                              m_url = (if path r = ''/'' \<and> url = [] then ''/'' else url),
                              m_isExact = isExact,
                              m_params = zip (keys toks) values\<rparr>)))"

text \<open>The match of the enclosing \<^verbatim>\<open>Router\<close>, which a child without a path inherits.\<close>

definition computeRootMatch :: "string \<Rightarrow> match" where
  "computeRootMatch pn = \<lparr>m_path = ''/'', m_url = ''/'', m_isExact = (pn = ''/''), m_params = []\<rparr>"

text \<open>What \<^verbatim>\<open>Switch\<close> computes for one child: \<^verbatim>\<open>path ? matchPath(...) : context.match\<close>.\<close>

definition child_match :: "string \<Rightarrow> route \<Rightarrow> match option" where
  "child_match pn r = (if path r = [] then Some (computeRootMatch pn) else matchPath pn r)"

text \<open>
  The loop of \<^verbatim>\<open>Switch.render\<close> over its children: a child is looked at only while
  \<^verbatim>\<open>match == null\<close>, so the first child that matches is kept, with its match.
\<close>

fun Switch :: "string \<Rightarrow> route list \<Rightarrow> (route \<times> match) option" where
  "Switch pn [] = None"
| "Switch pn (r # rs) =
     (case child_match pn r of Some m \<Rightarrow> Some (r, m) | None \<Rightarrow> Switch pn rs)"

text \<open>
  \<^verbatim>\<open>Route.render\<close> with a match: the children when there are any, else the component
  created with the route props, else nothing.
\<close>

definition Route :: "location \<Rightarrow> route \<Rightarrow> match \<Rightarrow> rendered option" where
  "Route loc r m =
     (case children r of
        Some ch \<Rightarrow> Some (Static ch)
      | None \<Rightarrow>
          (case component r of
             Some c \<Rightarrow> Some (Element c loc m)
           | None \<Rightarrow> None))"

text \<open>
  \<^verbatim>\<open>HomePage.render\<close>: the switch over the table at the router's location. The props of
  \<^verbatim>\<open>HomePage\<close> are received and not used.
\<close>

definition render :: "'p \<Rightarrow> location \<Rightarrow> rendered option" where
  "render props loc =
     (case Switch (pathname loc) routes of
        None \<Rightarrow> None
      | Some (r, m) \<Rightarrow> Route loc r m)"

text \<open>
  What is on screen, without the location handed through to a component: the literal
  element, or the component with the match (and so the parameters) it is created with.
\<close>

fun shown :: "rendered \<Rightarrow> element + component \<times> match" where
  "shown (Static e) = Inl e"
| "shown (Element c loc m) = Inr (c, m)"

subsection \<open>The history's location: \<^verbatim>\<open>createLocation\<close> and \<^verbatim>\<open>decodeURI\<close>\<close>

text \<open>
  How a call ends: with a value, with the \<^verbatim>\<open>URIError\<close> that \<^verbatim>\<open>createLocation\<close> throws for
  a path that cannot be decoded, or with a decoded path that holds a code unit above
  \<^verbatim>\<open>0xFF\<close>, which the 8-bit characters of this embedding cannot hold.
\<close>

datatype 'a completion = Returns 'a | Throws_URIError | Wide_character

definition hex_digit :: "char \<Rightarrow> nat option" where
  "hex_digit c =
     map_of (zip ''0123456789abcdefABCDEF''
                 [0, 1, 2, 3, 4, 5, 6, 7, 8, 9, 10, 11, 12, 13, 14, 15, 10, 11, 12, 13, 14, 15]) c"

definition hex_byte :: "char \<Rightarrow> char \<Rightarrow> nat option" where
  "hex_byte a b =
     (case hex_digit a of
        None \<Rightarrow> None
      | Some x \<Rightarrow> (case hex_digit b of None \<Rightarrow> None | Some y \<Rightarrow> Some (16 * x + y)))"

text \<open>The characters \<^verbatim>\<open>decodeURI\<close> leaves escaped: the reserved set and \<^verbatim>\<open>#\<close>.\<close>

definition uriReserved :: string where
  "uriReserved = '';/?:@&=+$,#''"

text \<open>The \<open>j\<close> continuation octets \<^verbatim>\<open>%XY\<close> of a multi-byte sequence, each \<^verbatim>\<open>10xxxxxx\<close>.\<close>

fun continuation :: "nat \<Rightarrow> string \<Rightarrow> (nat list \<times> string) option" where
  "continuation 0 s = Some ([], s)"
| "continuation (Suc j) (p # a # b # s) =
     (if p \<noteq> CHR ''%'' then None
      else (case hex_byte a b of
              None \<Rightarrow> None
            | Some B \<Rightarrow>
                if B div 64 \<noteq> 2 then None
                else map_option (\<lambda>(bs, r). (B # bs, r)) (continuation j s)))"
| "continuation (Suc j) s = None"

text \<open>
  The code point of a first octet and its continuation octets, when they are a valid
  UTF-8 encoding: not overlong, no surrogate, at most \<^verbatim>\<open>0x10FFFF\<close>.
\<close>

definition code_point :: "nat \<Rightarrow> nat list \<Rightarrow> nat option" where
  "code_point B bs =
     (case bs of
        [b1] \<Rightarrow>
          (let V = (B mod 32) * 64 + b1 mod 64
           in if 128 \<le> V then Some V else None)
      | [b1, b2] \<Rightarrow>
          (let V = (B mod 16) * 4096 + (b1 mod 64) * 64 + b2 mod 64
           in if 2048 \<le> V \<and> \<not> (55296 \<le> V \<and> V \<le> 57343) then Some V else None)
      | [b1, b2, b3] \<Rightarrow>
          (let V = (B mod 8) * 262144 + (b1 mod 64) * 4096 + (b2 mod 64) * 64 + b3 mod 64
           in if 65536 \<le> V \<and> V \<le> 1114111 then Some V else None)
      | _ \<Rightarrow> None)"

text \<open>The number of octets a first octet announces: its leading one bits.\<close>

definition sequence_length :: "nat \<Rightarrow> nat" where
  "sequence_length B =
     (if B < 192 then 1 else if B < 224 then 2 else if B < 240 then 3
      else if B < 248 then 4 else 5)"

text \<open>
  A sequence of several octets, read after its first octet \<open>B\<close>: the character it
  stands for (\<^verbatim>\<open>None\<close> for one above \<^verbatim>\<open>0xFF\<close>) and the input left over; no answer when
  \<^verbatim>\<open>Decode\<close> throws.
\<close>

definition multi_octet :: "nat \<Rightarrow> string \<Rightarrow> (string option \<times> string) option" where
  "multi_octet B s =
     (if sequence_length B = 1 \<or> 4 < sequence_length B then None
      else (case continuation (sequence_length B - 1) s of
              None \<Rightarrow> None
            | Some (bs, r) \<Rightarrow>
                (case code_point B bs of
                   None \<Rightarrow> None
                 | Some V \<Rightarrow> Some (if V < 256 then Some [char_of V] else None, r))))"

text \<open>
  One escape, read after its \<^verbatim>\<open>%\<close>: the text it stands for and the input left over; no
  answer when \<^verbatim>\<open>Decode\<close> throws. An escaped reserved character stays as it is written.
\<close>

definition escape :: "string \<Rightarrow> (string option \<times> string) option" where
  "escape s =
     (case s of
        a # b # s' \<Rightarrow>
          (case hex_byte a b of
             None \<Rightarrow> None
           | Some B \<Rightarrow>
               if B < 128 then
                 Some (Some (if char_of B \<in> set uriReserved then [CHR ''%'', a, b]
                             else [char_of B]), s')
               else multi_octet B s')
      | _ \<Rightarrow> None)"

fun emit :: "string \<Rightarrow> string completion \<Rightarrow> string completion" where
  "emit t (Returns r) = Returns (t @ r)"
| "emit t Throws_URIError = Throws_URIError"
| "emit t Wide_character = Wide_character"

fun emit_wide :: "string completion \<Rightarrow> string completion" where
  "emit_wide Throws_URIError = Throws_URIError"
| "emit_wide c = Wide_character"

function decodeURI :: "string \<Rightarrow> string completion" where
  "decodeURI [] = Returns []"
| "decodeURI (c # s) =
     (if c \<noteq> CHR ''%'' then emit [c] (decodeURI s)
      else (case escape s of
              None \<Rightarrow> Throws_URIError
            | Some (e, r) \<Rightarrow>
                (case e of
                   Some t \<Rightarrow> emit t (decodeURI r)
                 | None \<Rightarrow> emit_wide (decodeURI r))))"
  by pat_completeness auto
termination
proof -
  have cont: "continuation j s = Some (bs, r) \<Longrightarrow> length r \<le> length s"
    for j s bs r
  proof (induction j s arbitrary: bs r rule: continuation.induct)
    case (2 j p a b s)
    then show ?case
      by (fastforce split: if_splits option.splits)
  qed simp_all
  have esc: "escape s = Some (e, r) \<Longrightarrow> length r < Suc (length s)" for s e r
    by (auto simp: escape_def multi_octet_def split: list.splits option.splits if_splits
          dest!: cont)
  show ?thesis
  proof (relation "measure length")
    show "wf (measure length)" by simp
  next
    fix c :: char and s :: string
    show "(s, c # s) \<in> measure length" by simp
  next
    fix c :: char and s :: string and x2 :: "string option \<times> string" and x y t
    assume "escape s = Some x2" and "(x, y) = x2"
    then have "escape s = Some (x, y)" by simp
    from esc [OF this] show "(y, c # s) \<in> measure length" by simp
  next
    fix c :: char and s :: string and x2 :: "string option \<times> string" and x y
    assume "escape s = Some x2" and "(x, y) = x2"
    then have "escape s = Some (x, y)" by simp
    from esc [OF this] show "(y, c # s) \<in> measure length" by simp
  qed
qed

text \<open>
  \<^verbatim>\<open>createLocation\<close>, which \<^verbatim>\<open>BrowserRouter\<close> (line 16) calls on the browser's location when
  it is mounted and at every navigation: the path is decoded, an undecodable path
  throws, an empty path becomes \<^verbatim>\<open>/\<close>. The path of a URL holds no \<^verbatim>\<open>?\<close> and no \<^verbatim>\<open>#\<close>, so
  \<^verbatim>\<open>parsePath\<close>, which takes path, query and fragment apart again, gives the three parts
  back and is left out.
\<close>

definition createLocation :: "location \<Rightarrow> location completion" where
  "createLocation here =
     map_completion (\<lambda>p. here\<lparr>pathname := (if p = [] then ''/'' else p)\<rparr>)
       (decodeURI (pathname here))"

text \<open>
  The whole of line 16 to 24 at a browser location: the router's location is created,
  then \<^verbatim>\<open>HomePage.render\<close>'s switch runs on it.
\<close>

definition mount :: "'p \<Rightarrow> location \<Rightarrow> rendered option completion" where
  "mount props here = map_completion (render props) (createLocation here)"

subsection \<open>The compile cache of \<^verbatim>\<open>matchPath\<close>\<close>

text \<open>
  \<^verbatim>\<open>matchPath\<close> keeps what it compiles in a table of its module, which every call of the
  application reads and fills: per value of \<^verbatim>\<open>end\<close> (\<^verbatim>\<open>strict\<close> and \<^verbatim>\<open>sensitive\<close> are
  never set by the table of line 18 to 22) and per pattern the compiled expression and
  its keys, up to \<^verbatim>\<open>cacheLimit\<close> entries. A compiled expression is its tokens and its
  \<^verbatim>\<open>end\<close> flag; \<^verbatim>\<open>None\<close> stands for a pattern outside the modelled syntax.
\<close>

type_synonym compiled = "(token list \<times> bool \<times> string list) option"

definition pathToRegexp :: "string \<Rightarrow> bool \<Rightarrow> compiled" where
  "pathToRegexp p e = map_option (\<lambda>toks. (strip_delimiter toks, e, keys toks)) (parse p)"

record cache =
  entries :: "bool \<times> string \<Rightarrow> compiled option"
  cacheCount :: nat

definition cacheLimit :: nat where
  "cacheLimit = 10000"

definition compilePath :: "string \<Rightarrow> bool \<Rightarrow> cache \<Rightarrow> compiled \<times> cache" where
  "compilePath p e st =
     (case entries st (e, p) of
        Some c \<Rightarrow> (c, st)
      | None \<Rightarrow>
          (let c = pathToRegexp p e
           in (c, if cacheCount st < cacheLimit
                  then st\<lparr>entries := (entries st)((e, p) \<mapsto> c),
                          cacheCount := Suc (cacheCount st)\<rparr>
                  else st)))"

text \<open>The rest of \<^verbatim>\<open>matchPath\<close>: the compiled expression run on the path.\<close>

definition exec :: "compiled \<Rightarrow> string \<Rightarrow> route \<Rightarrow> match option" where
  "exec c pn r =
     (case c of
        None \<Rightarrow> None
      | Some (toks, e, ks) \<Rightarrow>
          (case match_tokens toks e pn of
             None \<Rightarrow> None
           | Some (url, values) \<Rightarrow>
               (let isExact = (pn = url)
                in if exact r \<and> \<not> isExact then None
                   else Some \<lparr>m_path = path r,
                              m_url = (if path r = ''/'' \<and> url = [] then ''/'' else url),
                              m_isExact = isExact,
                              m_params = zip ks values\<rparr>)))"

definition matchPath_cached :: "string \<Rightarrow> route \<Rightarrow> cache \<Rightarrow> match option \<times> cache" where
  "matchPath_cached pn r st =
     (case compilePath (path r) (exact r) st of (c, st') \<Rightarrow> (exec c pn r, st'))"

text \<open>
  The context a \<^verbatim>\<open>Router\<close> provides: its location and the root match computed from that
  location's path.
\<close>

record router_context =
  ctx_location :: location
  ctx_match :: match

definition Router :: "location \<Rightarrow> router_context" where
  "Router loc = \<lparr>ctx_location = loc, ctx_match = computeRootMatch (pathname loc)\<rparr>"

definition child_match_cached ::
  "string \<Rightarrow> router_context \<Rightarrow> route \<Rightarrow> cache \<Rightarrow> match option \<times> cache" where
  "child_match_cached pn ctx r st =
     (if path r = [] then (Some (ctx_match ctx), st) else matchPath_cached pn r st)"

fun Switch_cached ::
  "string \<Rightarrow> router_context \<Rightarrow> route list \<Rightarrow> cache \<Rightarrow> (route \<times> match) option \<times> cache" where
  "Switch_cached pn ctx [] st = (None, st)"
| "Switch_cached pn ctx (r # rs) st =
     (case child_match_cached pn ctx r st of
        (Some m, st') \<Rightarrow> (Some (r, m), st')
      | (None, st') \<Rightarrow> Switch_cached pn ctx rs st')"

text \<open>
  \<^verbatim>\<open>Switch.render\<close> as a whole: the location is its \<^verbatim>\<open>location\<close> prop when it has one and
  the context's otherwise; the child kept by the loop is rendered at that location.
\<close>

definition Switch_render ::
  "location option \<Rightarrow> router_context \<Rightarrow> route list \<Rightarrow> cache \<Rightarrow> rendered option \<times> cache" where
  "Switch_render prop ctx rs st =
     (let loc = (case prop of Some l \<Rightarrow> l | None \<Rightarrow> ctx_location ctx)
      in case Switch_cached (pathname loc) ctx rs st of
           (None, st') \<Rightarrow> (None, st')
         | (Some (r, m), st') \<Rightarrow> (Route loc r m, st'))"

text \<open>
  \<^verbatim>\<open>HomePage.render\<close> with the cache: the \<^verbatim>\<open>Switch\<close> of line 17 has no \<^verbatim>\<open>location\<close> prop and
  stands directly in the \<^verbatim>\<open>Router\<close> of line 16.
\<close>

definition render_cached :: "'p \<Rightarrow> location \<Rightarrow> cache \<Rightarrow> rendered option \<times> cache" where
  "render_cached props loc st = Switch_render None (Router loc) routes st"

definition mount_cached ::
  "'p \<Rightarrow> location \<Rightarrow> cache \<Rightarrow> rendered option completion \<times> cache" where
  "mount_cached props here st =
     (case createLocation here of
        Returns loc \<Rightarrow> (case render_cached props loc st of (out, st') \<Rightarrow> (Returns out, st'))
      | Throws_URIError \<Rightarrow> (Throws_URIError, st)
      | Wide_character \<Rightarrow> (Wide_character, st))"

text \<open>
  The caches the application can be in: the empty one the module starts with, any
  cache left by a call of \<^verbatim>\<open>matchPath\<close>, whoever makes it and with whatever path and
  route props, and any cache left by a call with \<^verbatim>\<open>strict\<close> or \<^verbatim>\<open>sensitive\<close> set, which
  files what it compiles under a key of its own and counts it.
\<close>

inductive reachable :: "cache \<Rightarrow> bool" where
  start: "reachable \<lparr>entries = Map.empty, cacheCount = 0\<rparr>"
| call: "reachable st \<Longrightarrow> reachable (snd (matchPath_cached pn r st))"
| other: "reachable st \<Longrightarrow> cacheCount st < cacheLimit \<Longrightarrow>
          reachable (st\<lparr>cacheCount := Suc (cacheCount st)\<rparr>)"

section \<open>The compiled patterns of the table\<close>

lemma parse_root: "parse ''/'' = Some [Lit ''/'']"
  by (simp add: parse_def push_path_def)
lemma parse_home: "parse ''/home'' = Some [Lit ''/home'']"
  by (simp add: parse_def push_path_def)
lemma parse_make: "parse ''/make'' = Some [Lit ''/make'']"
  by (simp add: parse_def push_path_def)
lemma parse_book: "parse ''/book'' = Some [Lit ''/book'']"
  by (simp add: parse_def push_path_def)
lemma parse_order: "parse ''/order/:orderId'' = Some [Lit ''/order'', Key ''orderId'']"
  by (simp add: parse_def push_path_def is_word_char_def)

lemma lit_match_append: "lit_match l (l @ s) = Some s"
  by (induction l) simp_all

lemma lit_match_SomeD:
  "lit_match l s = Some r \<Longrightarrow>
     s = take (length l) s @ r \<and> map canonicalize (take (length l) s) = map canonicalize l"
  by (induction l s rule: lit_match.induct) (auto split: if_splits)





section \<open>Each entry's match in closed form\<close>

lemma match_root:
  "child_match pn (routes ! 0) =
     (if pn = ''/'' \<or> pn = [] then
        Some \<lparr>m_path = ''/'', m_url = ''/'', m_isExact = True, m_params = []\<rparr>
      else None)"
  by (simp add: routes_def child_match_def matchPath_def parse_root strip_delimiter_def
        tail_match_def)

lemma match_literal:
  assumes "parse l = Some [Lit l]" and "l \<noteq> []" and "last l \<noteq> CHR ''/''"
  shows "child_match pn \<lparr>path = l, exact = False, component = c, children = ch\<rparr> =
     (case lit_match l pn of
        None \<Rightarrow> None
      | Some rest \<Rightarrow>
          (case tail_match False rest of
             None \<Rightarrow> None
           | Some u \<Rightarrow>
               Some \<lparr>m_path = l, m_url = take (length l) pn @ u,
                     m_isExact = (pn = take (length l) pn @ u), m_params = []\<rparr>))"
  using assms
  by (auto simp: child_match_def matchPath_def strip_delimiter_def split: option.splits)

lemma match_home:
  "child_match pn (routes ! 1) =
     (case lit_match ''/home'' pn of
        None \<Rightarrow> None
      | Some rest \<Rightarrow>
          (case tail_match False rest of
             None \<Rightarrow> None
           | Some u \<Rightarrow>
               Some \<lparr>m_path = ''/home'', m_url = take 5 pn @ u,
                     m_isExact = (pn = take 5 pn @ u), m_params = []\<rparr>))"
  using match_literal [OF parse_home, of pn] by (simp add: routes_def eval_nat_numeral split: option.splits)

lemma match_make:
  "child_match pn (routes ! 2) =
     (case lit_match ''/make'' pn of
        None \<Rightarrow> None
      | Some rest \<Rightarrow>
          (case tail_match False rest of
             None \<Rightarrow> None
           | Some u \<Rightarrow>
               Some \<lparr>m_path = ''/make'', m_url = take 5 pn @ u,
                     m_isExact = (pn = take 5 pn @ u), m_params = []\<rparr>))"
  using match_literal [OF parse_make, of pn] by (simp add: routes_def eval_nat_numeral split: option.splits)

lemma match_book:
  "child_match pn (routes ! 3) =
     (case lit_match ''/book'' pn of
        None \<Rightarrow> None
      | Some rest \<Rightarrow>
          (case tail_match False rest of
             None \<Rightarrow> None
           | Some u \<Rightarrow>
               Some \<lparr>m_path = ''/book'', m_url = take 5 pn @ u,
                     m_isExact = (pn = take 5 pn @ u), m_params = []\<rparr>))"
  using match_literal [OF parse_book, of pn] by (simp add: routes_def eval_nat_numeral split: option.splits)

lemma match_tokens_Lit:
  "match_tokens (Lit l # ts) e s =
     (case lit_match l s of
        None \<Rightarrow> None
      | Some r \<Rightarrow> map_option (\<lambda>(u, vs). (take (length l) s @ u, vs)) (match_tokens ts e r))"
  by simp

lemma match_order:
  "child_match pn (routes ! 4) =
     (case lit_match ''/order'' pn of
        None \<Rightarrow> None
      | Some s \<Rightarrow>
          (case match_tokens [Key ''orderId''] False s of
             None \<Rightarrow> None
           | Some (u, vs) \<Rightarrow>
               Some \<lparr>m_path = ''/order/:orderId'', m_url = take 6 pn @ u,
                     m_isExact = (pn = take 6 pn @ u),
                     m_params = zip [''orderId''] vs\<rparr>))"
  by (auto simp add: routes_def child_match_def matchPath_def parse_order strip_delimiter_def
        match_tokens_Lit eval_nat_numeral simp del: match_tokens.simps split: option.splits)

section \<open>The entries exclude each other\<close>

lemma lit_match_sig:
  "lit_match l s = Some r \<Longrightarrow> k \<le> length l \<Longrightarrow>
     map canonicalize (take k s) = take k (map canonicalize l)"
proof -
  assume m: "lit_match l s = Some r" and k: "k \<le> length l"
  have "map canonicalize (take k s) = take k (map canonicalize (take (length l) s))"
    using k by (simp add: take_map [symmetric] min_def)
  also have "\<dots> = take k (map canonicalize l)"
    using lit_match_SomeD [OF m] by simp
  finally show ?thesis .
qed

lemma sig_root: "child_match pn (routes ! 0) \<noteq> None \<Longrightarrow> length pn \<le> 1"
  by (auto simp: match_root split: if_splits)

lemma canon_home: "map canonicalize ''/home'' = ''/HOME''"
  by (simp add: canonicalize_def)

lemma canon_make: "map canonicalize ''/make'' = ''/MAKE''"
  by (simp add: canonicalize_def)

lemma canon_book: "map canonicalize ''/book'' = ''/BOOK''"
  by (simp add: canonicalize_def)

lemma canon_order: "map canonicalize ''/order'' = ''/ORDER''"
  by (simp add: canonicalize_def)

lemma sig_home:
  assumes "child_match pn (routes ! 1) \<noteq> None"
  shows "map canonicalize (take 5 pn) = ''/HOME''"
proof -
  from assms obtain rest where "lit_match ''/home'' pn = Some rest"
    unfolding match_home by (auto split: option.splits)
  from lit_match_sig [OF this, of 5] show ?thesis
    unfolding canon_home by simp
qed

lemma sig_make:
  assumes "child_match pn (routes ! 2) \<noteq> None"
  shows "map canonicalize (take 5 pn) = ''/MAKE''"
proof -
  from assms obtain rest where "lit_match ''/make'' pn = Some rest"
    unfolding match_make by (auto split: option.splits)
  from lit_match_sig [OF this, of 5] show ?thesis
    unfolding canon_make by simp
qed

lemma sig_book:
  assumes "child_match pn (routes ! 3) \<noteq> None"
  shows "map canonicalize (take 5 pn) = ''/BOOK''"
proof -
  from assms obtain rest where "lit_match ''/book'' pn = Some rest"
    unfolding match_book by (auto split: option.splits)
  from lit_match_sig [OF this, of 5] show ?thesis
    unfolding canon_book by simp
qed

lemma sig_order:
  assumes "child_match pn (routes ! 4) \<noteq> None"
  shows "map canonicalize (take 5 pn) = ''/ORDE''"
proof -
  from assms obtain rest where "lit_match ''/order'' pn = Some rest"
    unfolding match_order by (auto split: option.splits)
  from lit_match_sig [OF this, of 5] show ?thesis
    unfolding canon_order by simp
qed

lemma length_routes: "length routes = 5"
  by (simp add: routes_def)

lemma routes_selector:
  assumes "i < length routes" and "child_match pn (routes ! i) \<noteq> None"
  shows "i = (if length pn \<le> 1 then 0
              else if map canonicalize (take 5 pn) = ''/HOME'' then 1
              else if map canonicalize (take 5 pn) = ''/MAKE'' then 2
              else if map canonicalize (take 5 pn) = ''/BOOK'' then 3
              else 4)"
proof -
  have "i = 0 \<or> i = 1 \<or> i = 2 \<or> i = 3 \<or> i = 4"
    using assms(1) unfolding length_routes by arith
  then consider "i = 0" | "i = 1" | "i = 2" | "i = 3" | "i = 4" by blast
  then show ?thesis
  proof cases
    case 1
    from assms(2) have "child_match pn (routes ! 0) \<noteq> None" unfolding 1 .
    from sig_root [OF this] 1 show ?thesis by simp
  next
    case 2
    from assms(2) have "child_match pn (routes ! 1) \<noteq> None" unfolding 2 .
    then have s: "map canonicalize (take 5 pn) = ''/HOME''" by (rule sig_home)
    then have "length (map canonicalize (take 5 pn)) = 5" by simp
    then have "\<not> length pn \<le> 1" by simp
    with s 2 show ?thesis by simp
  next
    case 3
    from assms(2) have "child_match pn (routes ! 2) \<noteq> None" unfolding 3 .
    then have s: "map canonicalize (take 5 pn) = ''/MAKE''" by (rule sig_make)
    then have "length (map canonicalize (take 5 pn)) = 5" by simp
    then have "\<not> length pn \<le> 1" by simp
    with s 3 show ?thesis by simp
  next
    case 4
    from assms(2) have "child_match pn (routes ! 3) \<noteq> None" unfolding 4 .
    then have s: "map canonicalize (take 5 pn) = ''/BOOK''" by (rule sig_book)
    then have "length (map canonicalize (take 5 pn)) = 5" by simp
    then have "\<not> length pn \<le> 1" by simp
    with s 4 show ?thesis by simp
  next
    case 5
    from assms(2) have "child_match pn (routes ! 4) \<noteq> None" unfolding 5 .
    then have s: "map canonicalize (take 5 pn) = ''/ORDE''" by (rule sig_order)
    then have "length (map canonicalize (take 5 pn)) = 5" by simp
    then have "\<not> length pn \<le> 1" by simp
    with s 5 show ?thesis by simp
  qed
qed

lemma routes_exclusive:
  assumes "i < length routes" and "j < length routes"
    and "child_match pn (routes ! i) \<noteq> None" and "child_match pn (routes ! j) \<noteq> None"
  shows "i = j"
  using routes_selector [OF assms(1) assms(3)] routes_selector [OF assms(2) assms(4)]
  by simp

lemma Switch_SomeD:
  "Switch pn rs = Some (r, m) \<Longrightarrow>
     \<exists>i<length rs. rs ! i = r \<and> child_match pn r = Some m \<and>
        (\<forall>j<i. child_match pn (rs ! j) = None)"
proof (induction rs)
  case Nil
  then show ?case by simp
next
  case (Cons a rs)
  show ?case
  proof (cases "child_match pn a")
    case None
    with Cons.prems have "Switch pn rs = Some (r, m)" by simp
    from Cons.IH [OF this] obtain i where i: "i < length rs" "rs ! i = r"
      "child_match pn r = Some m" "\<forall>j<i. child_match pn (rs ! j) = None" by blast
    have "\<forall>j<Suc i. child_match pn ((a # rs) ! j) = None"
      using None i(4) by (auto simp: nth_Cons split: nat.splits)
    with i show ?thesis by (intro exI [of _ "Suc i"]) simp
  next
    case (Some m')
    with Cons.prems have "a = r" "m' = m" by simp_all
    with Some show ?thesis by (intro exI [of _ 0]) simp
  qed
qed

lemma Switch_None_iff:
  "Switch pn rs = None \<longleftrightarrow> (\<forall>r\<in>set rs. child_match pn r = None)"
  by (induction rs) (auto split: option.splits)

lemma child_match_routes:
  "r \<in> set routes \<Longrightarrow> child_match pn r = matchPath pn r"
  by (auto simp: routes_def child_match_def)

section \<open>The switch on the families of paths\<close>

lemma Switch_routes:
  "Switch pn routes =
     (case child_match pn (routes ! 0) of Some m \<Rightarrow> Some (routes ! 0, m) | None \<Rightarrow>
      case child_match pn (routes ! 1) of Some m \<Rightarrow> Some (routes ! 1, m) | None \<Rightarrow>
      case child_match pn (routes ! 2) of Some m \<Rightarrow> Some (routes ! 2, m) | None \<Rightarrow>
      case child_match pn (routes ! 3) of Some m \<Rightarrow> Some (routes ! 3, m) | None \<Rightarrow>
      case child_match pn (routes ! 4) of Some m \<Rightarrow> Some (routes ! 4, m) | None \<Rightarrow> None)"
  by (simp add: routes_def split: option.splits)

lemma Route_routes:
  "Route loc (routes ! 0) m = Some (Element UserGenPage loc m)"
  "Route loc (routes ! 1) m = Some (Static (P ''You are at the start page''))"
  "Route loc (routes ! 2) m = Some (Element MakerPage loc m)"
  "Route loc (routes ! 3) m = Some (Element BookPage loc m)"
  "Route loc (routes ! 4) m = Some (Element OrderPage loc m)"
  by (simp_all add: Route_def routes_def)

lemma tail_match_boundary:
  "rest = [] \<or> take 1 rest = ''/'' \<Longrightarrow>
     tail_match False rest = Some (if rest = ''/'' then ''/'' else [])"
  by (auto simp: tail_match_def)

lemma render_Some:
  "Switch (pathname loc) routes = Some (r, m) \<Longrightarrow> render props loc = Route loc r m"
  by (simp add: render_def)

lemma Switch_root:
  "Switch ''/'' routes =
     Some (routes ! 0, \<lparr>m_path = ''/'', m_url = ''/'', m_isExact = True, m_params = []\<rparr>)"
  unfolding Switch_routes match_root by simp


lemma Switch_make:
  assumes "rest = [] \<or> take 1 rest = ''/''"
  shows "Switch (''/make'' @ rest) routes =
     Some (routes ! 2, \<lparr>m_path = ''/make'',
                         m_url = ''/make'' @ (if rest = ''/'' then ''/'' else []),
                         m_isExact = (rest = [] \<or> rest = ''/''), m_params = []\<rparr>)"
proof -
  have 0: "child_match (''/make'' @ rest) (routes ! 0) = None"
    unfolding match_root by simp
  have 1: "child_match (''/make'' @ rest) (routes ! 1) = None"
    unfolding match_home by (simp add: canonicalize_def)
  have 2: "child_match (''/make'' @ rest) (routes ! 2) =
     Some \<lparr>m_path = ''/make'', m_url = ''/make'' @ (if rest = ''/'' then ''/'' else []),
           m_isExact = (rest = [] \<or> rest = ''/''), m_params = []\<rparr>"
    unfolding match_make using tail_match_boundary [OF assms]
    by (auto simp: canonicalize_def)
  show ?thesis unfolding Switch_routes 0 1 2 by simp
qed

lemma Switch_book:
  assumes "rest = [] \<or> take 1 rest = ''/''"
  shows "Switch (''/book'' @ rest) routes =
     Some (routes ! 3, \<lparr>m_path = ''/book'',
                         m_url = ''/book'' @ (if rest = ''/'' then ''/'' else []),
                         m_isExact = (rest = [] \<or> rest = ''/''), m_params = []\<rparr>)"
proof -
  have 0: "child_match (''/book'' @ rest) (routes ! 0) = None"
    unfolding match_root by simp
  have 1: "child_match (''/book'' @ rest) (routes ! 1) = None"
    unfolding match_home by (simp add: canonicalize_def)
  have 2: "child_match (''/book'' @ rest) (routes ! 2) = None"
    unfolding match_make by (simp add: canonicalize_def)
  have 3: "child_match (''/book'' @ rest) (routes ! 3) =
     Some \<lparr>m_path = ''/book'', m_url = ''/book'' @ (if rest = ''/'' then ''/'' else []),
           m_isExact = (rest = [] \<or> rest = ''/''), m_params = []\<rparr>"
    unfolding match_book using tail_match_boundary [OF assms]
    by (auto simp: canonicalize_def)
  show ?thesis unfolding Switch_routes 0 1 2 3 by simp
qed

lemma Switch_order_prefix:
  "child_match (''/order'' @ s) (routes ! 0) = None"
  "child_match (''/order'' @ s) (routes ! 1) = None"
  "child_match (''/order'' @ s) (routes ! 2) = None"
  "child_match (''/order'' @ s) (routes ! 3) = None"
  unfolding match_root match_home match_make match_book
  by (simp_all add: canonicalize_def)


lemma Switch_order_bare:
  "Switch ''/order'' routes = None" "Switch ''/order/'' routes = None"
proof -
  have a: "child_match (''/order'' @ []) (routes ! 4) = None"
    unfolding match_order lit_match_append by simp
  have b: "child_match (''/order'' @ ''/'') (routes ! 4) = None"
    unfolding match_order lit_match_append by simp
  show "Switch ''/order'' routes = None"
    using a Switch_order_prefix [of "[]"] unfolding Switch_routes by simp
  show "Switch ''/order/'' routes = None"
    using b Switch_order_prefix [of "''/''"] unfolding Switch_routes by simp
qed

section \<open>What \<^verbatim>\<open>render\<close> gives on the families of paths\<close>





section \<open>Decoding\<close>
























section \<open>The cache does not change what is matched\<close>

text \<open>
  Every entry of a reachable cache is what compiling its pattern afresh gives, so on a
  reachable cache the functions with the cache compute what the functions without it
  compute, and leave a reachable cache.
\<close>

lemma reachable_entries:
  "reachable st \<Longrightarrow> entries st (e, p) = Some c \<Longrightarrow> c = pathToRegexp p e"
proof (induction arbitrary: e p c rule: reachable.induct)
  case start
  then show ?case by simp
next
  case (call st pn r)
  then show ?case
    by (auto simp: matchPath_cached_def compilePath_def Let_def
          split: option.splits if_splits prod.splits)
next
  case (other st)
  then show ?case by simp
qed

lemma compilePath_reachable:
  "reachable st \<Longrightarrow> fst (compilePath p e st) = pathToRegexp p e"
  by (auto simp: compilePath_def Let_def split: option.splits dest: reachable_entries)

lemma exec_fresh: "exec (pathToRegexp (path r) (exact r)) pn r = matchPath pn r"
  by (auto simp: exec_def pathToRegexp_def matchPath_def split: option.splits)

lemma matchPath_cached_reachable:
  assumes "reachable st" and "matchPath_cached pn r st = (m, st')"
  shows "m = matchPath pn r \<and> reachable st'"
proof -
  obtain c st1 where c: "compilePath (path r) (exact r) st = (c, st1)"
    by (cases "compilePath (path r) (exact r) st")
  with compilePath_reachable [OF assms(1), of "path r" "exact r"]
  have "c = pathToRegexp (path r) (exact r)" by simp
  with c assms(2) have "m = matchPath pn r"
    by (simp add: matchPath_cached_def exec_fresh)
  moreover from reachable.call [OF assms(1), of pn r] assms(2) have "reachable st'"
    by simp
  ultimately show ?thesis by simp
qed

lemma child_match_cached_reachable:
  assumes "reachable st"
    and "child_match_cached (pathname loc) (Router loc) r st = (m, st')"
  shows "m = child_match (pathname loc) r \<and> reachable st'"
proof (cases "path r = []")
  case True
  with assms show ?thesis
    by (auto simp: child_match_cached_def child_match_def Router_def)
next
  case False
  with assms(2) have "matchPath_cached (pathname loc) r st = (m, st')"
    by (simp add: child_match_cached_def)
  from matchPath_cached_reachable [OF assms(1) this] False show ?thesis
    by (simp add: child_match_def)
qed

lemma Switch_cached_reachable:
  "reachable st \<Longrightarrow> Switch_cached (pathname loc) (Router loc) rs st = (x, st') \<Longrightarrow>
     x = Switch (pathname loc) rs \<and> reachable st'"
proof (induction rs arbitrary: st)
  case Nil
  then show ?case by simp
next
  case (Cons r rs)
  obtain m st1 where c: "child_match_cached (pathname loc) (Router loc) r st = (m, st1)"
    by (cases "child_match_cached (pathname loc) (Router loc) r st")
  from child_match_cached_reachable [OF Cons.prems(1) c]
  have m: "m = child_match (pathname loc) r" and r1: "reachable st1" by simp_all
  show ?case
  proof (cases m)
    case None
    with c Cons.prems(2) have "Switch_cached (pathname loc) (Router loc) rs st1 = (x, st')"
      by simp
    from Cons.IH [OF r1 this] None m show ?thesis by simp
  next
    case (Some a)
    with c Cons.prems(2) have "x = Some (r, a)" "st' = st1" by simp_all
    with Some m r1 show ?thesis by simp
  qed
qed

lemma render_cached_reachable:
  assumes "reachable st" and "render_cached props loc st = (out, st')"
  shows "out = render props loc \<and> reachable st'"
proof -
  obtain x st1 where s: "Switch_cached (pathname loc) (Router loc) routes st = (x, st1)"
    by (cases "Switch_cached (pathname loc) (Router loc) routes st")
  from Switch_cached_reachable [OF assms(1) s]
  have x: "x = Switch (pathname loc) routes" and r1: "reachable st1" by simp_all
  have l: "ctx_location (Router loc) = loc" by (simp add: Router_def)
  from assms(2) s x r1 show ?thesis
    by (auto simp: render_cached_def Switch_render_def render_def l split: option.splits)
qed

lemma mount_cached_reachable:
  assumes "reachable st" and "mount_cached props here st = (out, st')"
  shows "out = mount props here \<and> reachable st'"
proof (cases "createLocation here")
  case (Returns loc)
  obtain o1 st1 where r: "render_cached props loc st = (o1, st1)"
    by (cases "render_cached props loc st")
  from render_cached_reachable [OF assms(1) r] r assms(2) Returns show ?thesis
    by (simp add: mount_cached_def mount_def)
next
  case Throws_URIError
  with assms show ?thesis by (simp add: mount_cached_def mount_def)
next
  case Wide_character
  with assms show ?thesis by (simp add: mount_cached_def mount_def)
qed

lemma shown_render:
  "pathname a = pathname b \<Longrightarrow>
     map_option shown (render p a) = map_option shown (render q b)"
  by (simp add: render_def Route_def split: option.splits)

lemma shown_mount:
  assumes "pathname a = pathname b"
  shows "map_completion (map_option shown) (mount p a) =
         map_completion (map_option shown) (mount q b)"
proof (cases "decodeURI (pathname a)")
  case (Returns x)
  let ?x = "if x = [] then ''/'' else x"
  have "map_option shown (render p (a\<lparr>pathname := ?x\<rparr>)) =
        map_option shown (render q (b\<lparr>pathname := ?x\<rparr>))"
    by (rule shown_render) simp
  with Returns assms show ?thesis
    by (simp add: mount_def createLocation_def)
next
  case Throws_URIError
  with assms show ?thesis by (simp add: mount_def createLocation_def)
next
  case Wide_character
  with assms show ?thesis by (simp add: mount_def createLocation_def)
qed

text \<open>
  A cache that is not reachable can change the dispatch: with the compiled \<^verbatim>\<open>/book\<close> filed
  under \<^verbatim>\<open>/make\<close>, the path \<^verbatim>\<open>/book\<close> selects the entry of the Maker View.
\<close>

lemma stale_cache_changes_dispatch:
  "map_option fst
     (fst (Switch_cached ''/book'' (Router \<lparr>pathname = ''/book'', search = [], hash = []\<rparr>) routes
        \<lparr>entries = Map.empty((False, ''/make'') \<mapsto> pathToRegexp ''/book'' False),
         cacheCount = 1\<rparr>)) = Some (routes ! 2) \<and>
   map_option fst
     (fst (Switch_cached ''/book'' (Router \<lparr>pathname = ''/book'', search = [], hash = []\<rparr>) routes
        \<lparr>entries = Map.empty, cacheCount = 0\<rparr>)) = Some (routes ! 3)"
  by code_simp

section \<open>The claims\<close>

text \<open>
  C1. For every path at most one entry of the table is active and rendered. When the
  switch selects an entry, it is an entry of the table that matches the path, no entry
  before it matches (the traversal is top to bottom and the first match wins), no other
  entry of the table matches the path at all, and what \<^verbatim>\<open>render\<close> gives is that one
  entry's output.
\<close>

theorem switch_first_match_wins:
  assumes "Switch (pathname loc) routes = Some (r, m)"
  shows "\<exists>i<length routes. routes ! i = r \<and> matchPath (pathname loc) r = Some m \<and>
           (\<forall>j<i. matchPath (pathname loc) (routes ! j) = None) \<and>
           (\<forall>j<length routes. j \<noteq> i \<longrightarrow> matchPath (pathname loc) (routes ! j) = None) \<and>
           render props loc = Route loc r m"
proof -
  let ?pn = "pathname loc"
  from Switch_SomeD [OF assms] obtain i where i: "i < length routes" "routes ! i = r"
    "child_match ?pn r = Some m" "\<forall>j<i. child_match ?pn (routes ! j) = None" by blast
  have cm: "\<And>j. j < length routes \<Longrightarrow> child_match ?pn (routes ! j) = matchPath ?pn (routes ! j)"
    by (simp add: child_match_routes)
  have excl: "\<forall>j<length routes. j \<noteq> i \<longrightarrow> child_match ?pn (routes ! j) = None"
  proof (intro allI impI)
    fix j assume j: "j < length routes" "j \<noteq> i"
    show "child_match ?pn (routes ! j) = None"
    proof (rule ccontr)
      assume "child_match ?pn (routes ! j) \<noteq> None"
      moreover have "child_match ?pn (routes ! i) \<noteq> None" using i(2,3) by simp
      ultimately have "j = i" using routes_exclusive [OF j(1) i(1)] by simp
      with j(2) show False by simp
    qed
  qed
  have "render props loc = Route loc r m"
    using assms by (simp add: render_def)
  moreover have "matchPath ?pn r = Some m"
    using i(1,2,3) cm [of i] by simp
  moreover have "\<forall>j<i. matchPath ?pn (routes ! j) = None"
    using i(1,4) cm by simp
  moreover have "\<forall>j<length routes. j \<noteq> i \<longrightarrow> matchPath ?pn (routes ! j) = None"
    using excl cm by simp
  ultimately show ?thesis using i(1,2) by blast
qed

theorem switch_first_match_wins_witness:
  "Switch (pathname \<lparr>pathname = ''/make'', search = [], hash = []\<rparr>) routes =
     Some (routes ! 2, \<lparr>m_path = ''/make'', m_url = ''/make'', m_isExact = True, m_params = []\<rparr>)
   \<and> (\<exists>i<length routes. routes ! i = routes ! 2 \<and>
         matchPath ''/make'' (routes ! 2) =
           Some \<lparr>m_path = ''/make'', m_url = ''/make'', m_isExact = True, m_params = []\<rparr> \<and>
         (\<forall>j<i. matchPath ''/make'' (routes ! j) = None) \<and>
         (\<forall>j<length routes. j \<noteq> i \<longrightarrow> matchPath ''/make'' (routes ! j) = None) \<and>
         render () \<lparr>pathname = ''/make'', search = [], hash = []\<rparr> =
           Route \<lparr>pathname = ''/make'', search = [], hash = []\<rparr> (routes ! 2)
             \<lparr>m_path = ''/make'', m_url = ''/make'', m_isExact = True, m_params = []\<rparr>)"
proof -
  have h: "Switch (pathname \<lparr>pathname = ''/make'', search = [], hash = []\<rparr>) routes =
     Some (routes ! 2, \<lparr>m_path = ''/make'', m_url = ''/make'', m_isExact = True, m_params = []\<rparr>)"
    using Switch_make [of "[]"] by simp
  from switch_first_match_wins [OF h, of "()"] h show ?thesis by simp
qed




text \<open>
  C3. The entry \<^verbatim>\<open>/\<close> is exact: of all paths (a path is never empty: the router's
  history gives \<^verbatim>\<open>/\<close> for an empty one) it matches \<^verbatim>\<open>/\<close> and no other, so not \<^verbatim>\<open>/home\<close>,
  \<^verbatim>\<open>/make\<close>, \<^verbatim>\<open>/book\<close> or any longer path. At \<^verbatim>\<open>/\<close> the output is the User Generation
  View, and no other entry of the table matches \<^verbatim>\<open>/\<close>.
\<close>

theorem root_route_exact:
  assumes "pn \<noteq> []"
  shows "(matchPath pn (routes ! 0) \<noteq> None) = (pn = ''/'') \<and>
     render props (loc\<lparr>pathname := ''/''\<rparr>) =
       Some (Element UserGenPage (loc\<lparr>pathname := ''/''\<rparr>)
              \<lparr>m_path = ''/'', m_url = ''/'', m_isExact = True, m_params = []\<rparr>) \<and>
     (\<forall>i<length routes. i \<noteq> 0 \<longrightarrow> matchPath ''/'' (routes ! i) = None)"
proof -
  have r0: "routes ! 0 \<in> set routes" by (simp add: routes_def)
  have a: "(matchPath pn (routes ! 0) \<noteq> None) = (pn = ''/'')"
    using assms match_root [of pn] child_match_routes [OF r0, of pn] by (auto split: if_splits)
  have s: "Switch (pathname (loc\<lparr>pathname := ''/''\<rparr>)) routes =
      Some (routes ! 0, \<lparr>m_path = ''/'', m_url = ''/'', m_isExact = True, m_params = []\<rparr>)"
    using Switch_root by simp
  have b: "render props (loc\<lparr>pathname := ''/''\<rparr>) =
       Some (Element UserGenPage (loc\<lparr>pathname := ''/''\<rparr>)
              \<lparr>m_path = ''/'', m_url = ''/'', m_isExact = True, m_params = []\<rparr>)"
    unfolding render_Some [OF s] Route_routes ..
  have m0: "child_match ''/'' (routes ! 0) \<noteq> None"
    unfolding match_root by simp
  have l0: "0 < length routes" by (simp add: length_routes)
  have c: "\<forall>i<length routes. i \<noteq> 0 \<longrightarrow> matchPath ''/'' (routes ! i) = None"
  proof (intro allI impI)
    fix i assume i: "i < length routes" "i \<noteq> 0"
    show "matchPath ''/'' (routes ! i) = None"
    proof (rule ccontr)
      assume "matchPath ''/'' (routes ! i) \<noteq> None"
      then have "child_match ''/'' (routes ! i) \<noteq> None"
        using i(1) by (simp add: child_match_routes)
      from routes_exclusive [OF i(1) l0 this m0] i(2) show False by simp
    qed
  qed
  from a b c show ?thesis by blast
qed

theorem root_route_exact_witness:
  "''/home'' \<noteq> [] \<and> matchPath ''/home'' (routes ! 0) = None \<and>
   render () \<lparr>pathname = ''/'', search = [], hash = []\<rparr> =
     Some (Element UserGenPage \<lparr>pathname = ''/'', search = [], hash = []\<rparr>
            \<lparr>m_path = ''/'', m_url = ''/'', m_isExact = True, m_params = []\<rparr>)"
  using root_route_exact [of "''/home''" "()" "\<lparr>pathname = [], search = [], hash = []\<rparr>"]
  by simp




text \<open>C5. For the path \<^verbatim>\<open>/make\<close> the output is the Maker View.\<close>

theorem make_renders_maker_view:
  "render props (loc\<lparr>pathname := ''/make''\<rparr>) =
     Some (Element MakerPage (loc\<lparr>pathname := ''/make''\<rparr>)
            \<lparr>m_path = ''/make'', m_url = ''/make'', m_isExact = True, m_params = []\<rparr>)"
  using Switch_make [of "[]"]
  by (simp add: render_def Route_routes)

text \<open>C6. For the path \<^verbatim>\<open>/book\<close> the output is the Book View.\<close>

theorem book_renders_book_view:
  "render props (loc\<lparr>pathname := ''/book''\<rparr>) =
     Some (Element BookPage (loc\<lparr>pathname := ''/book''\<rparr>)
            \<lparr>m_path = ''/book'', m_url = ''/book'', m_isExact = True, m_params = []\<rparr>)"
  using Switch_book [of "[]"]
  by (simp add: render_def Route_routes)

text \<open>
  C7. For every path that none of the five patterns matches, nothing is rendered: the
  table has no fallback entry.
\<close>

theorem no_match_renders_nothing:
  assumes "\<forall>r\<in>set routes. matchPath (pathname loc) r = None"
  shows "render props loc = None"
proof -
  from assms have "\<forall>r\<in>set routes. child_match (pathname loc) r = None"
    by (simp add: child_match_routes)
  then have "Switch (pathname loc) routes = None"
    by (simp add: Switch_None_iff)
  then show ?thesis by (simp add: render_def)
qed

theorem no_match_renders_nothing_witness:
  "matchPath ''/nowhere'' (routes ! 0) = None \<and>
   matchPath ''/nowhere'' (routes ! 1) = None \<and>
   matchPath ''/nowhere'' (routes ! 2) = None \<and>
   matchPath ''/nowhere'' (routes ! 3) = None \<and>
   matchPath ''/nowhere'' (routes ! 4) = None \<and>
   render () \<lparr>pathname = ''/nowhere'', search = [], hash = []\<rparr> = None"
proof -
  have 0: "child_match ''/nowhere'' (routes ! 0) = None"
    unfolding match_root by simp
  have 1: "child_match ''/nowhere'' (routes ! 1) = None"
    unfolding match_home by (simp add: canonicalize_def)
  have 2: "child_match ''/nowhere'' (routes ! 2) = None"
    unfolding match_make by (simp add: canonicalize_def)
  have 3: "child_match ''/nowhere'' (routes ! 3) = None"
    unfolding match_book by (simp add: canonicalize_def)
  have 4: "child_match ''/nowhere'' (routes ! 4) = None"
    unfolding match_order by (simp add: canonicalize_def)
  have "Switch ''/nowhere'' routes = None"
    unfolding Switch_routes 0 1 2 3 4 by simp
  then have "\<forall>r\<in>set routes. child_match ''/nowhere'' r = None"
    by (simp add: Switch_None_iff)
  then have h: "\<forall>r\<in>set routes.
      matchPath (pathname \<lparr>pathname = ''/nowhere'', search = [], hash = []\<rparr>) r = None"
    by (simp add: child_match_routes)
  have mem: "routes ! 0 \<in> set routes" "routes ! 1 \<in> set routes" "routes ! 2 \<in> set routes"
    "routes ! 3 \<in> set routes" "routes ! 4 \<in> set routes"
    by (simp_all add: length_routes)
  from no_match_renders_nothing [OF h, of "()"] h mem show ?thesis by auto
qed




text \<open>
  C9. At the paths \<^verbatim>\<open>/order\<close> and \<^verbatim>\<open>/order/\<close> the pattern \<^verbatim>\<open>/order/:orderId\<close> does not
  match, the parameter needing a non-empty segment, and as no other pattern matches
  either, nothing is rendered.
\<close>

theorem bare_order_renders_nothing:
  "matchPath ''/order'' (routes ! 4) = None \<and>
   matchPath ''/order/'' (routes ! 4) = None \<and>
   render props (loc\<lparr>pathname := ''/order''\<rparr>) = None \<and>
   render props (loc\<lparr>pathname := ''/order/''\<rparr>) = None"
proof -
  have r4: "routes ! 4 \<in> set routes" by (simp add: routes_def)
  have a: "child_match (''/order'' @ []) (routes ! 4) = None"
    unfolding match_order lit_match_append by simp
  have b: "child_match (''/order'' @ ''/'') (routes ! 4) = None"
    unfolding match_order lit_match_append by simp
  have "matchPath ''/order'' (routes ! 4) = None"
    using a child_match_routes [OF r4, of "''/order''"] by simp
  moreover have "matchPath ''/order/'' (routes ! 4) = None"
    using b child_match_routes [OF r4, of "''/order/''"] by simp
  moreover have "render props (loc\<lparr>pathname := ''/order''\<rparr>) = None"
    by (simp add: render_def Switch_order_bare)
  moreover have "render props (loc\<lparr>pathname := ''/order/''\<rparr>) = None"
    by (simp add: render_def Switch_order_bare)
  ultimately show ?thesis by blast
qed

text \<open>
  C10. The dispatch depends on the path only. Whatever the state the application has
  left \<^verbatim>\<open>matchPath\<close>'s cache in, and whatever the query, the fragment and the props of
  \<^verbatim>\<open>HomePage\<close>, two evaluations at the same path select the same entry of the constant
  table with the same match, and show the same view with the same bound parameters (or
  both throw the same error).
\<close>

theorem dispatch_depends_on_pathname_only:
  assumes "reachable c1" and "reachable c2" and "pathname l1 = pathname l2"
  shows "fst (Switch_cached (pathname l1) (Router l1) routes c1) =
           fst (Switch_cached (pathname l2) (Router l2) routes c2) \<and>
         map_option shown (fst (render_cached p1 l1 c1)) =
           map_option shown (fst (render_cached p2 l2 c2)) \<and>
         map_completion (map_option shown) (fst (mount_cached p1 l1 c1)) =
           map_completion (map_option shown) (fst (mount_cached p2 l2 c2))"
proof -
  have s: "fst (Switch_cached (pathname l) (Router l) routes c) = Switch (pathname l) routes"
    if "reachable c" for l c
    using Switch_cached_reachable [OF that, of l routes] by (metis prod.collapse)
  have r: "fst (render_cached p l c) = render p l" if "reachable c" for p :: 'x and l c
    using render_cached_reachable [OF that, of p l] by (metis prod.collapse)
  have r': "fst (render_cached p l c) = render p l" if "reachable c" for p :: 'y and l c
    using render_cached_reachable [OF that, of p l] by (metis prod.collapse)
  have m: "fst (mount_cached p l c) = mount p l" if "reachable c" for p :: 'x and l c
    using mount_cached_reachable [OF that, of p l] by (metis prod.collapse)
  have m': "fst (mount_cached p l c) = mount p l" if "reachable c" for p :: 'y and l c
    using mount_cached_reachable [OF that, of p l] by (metis prod.collapse)
  show ?thesis
    unfolding s [OF assms(1)] s [OF assms(2)]
    using assms(3) r [OF assms(1), of p1 l1] r' [OF assms(2), of p2 l2]
      m [OF assms(1), of p1 l1] m' [OF assms(2), of p2 l2]
      shown_render [OF assms(3), of p1 p2] shown_mount [OF assms(3), of p1 p2]
    by simp
qed

theorem dispatch_depends_on_pathname_only_witness:
  "reachable \<lparr>entries = Map.empty, cacheCount = 0\<rparr> \<and>
   reachable (snd (matchPath_cached ''/make'' (routes ! 2) \<lparr>entries = Map.empty, cacheCount = 0\<rparr>)) \<and>
   pathname \<lparr>pathname = ''/order/4%32'', search = ''?a=1'', hash = []\<rparr> =
     pathname \<lparr>pathname = ''/order/4%32'', search = [], hash = ''#top''\<rparr> \<and>
   map_completion (map_option shown)
     (fst (mount_cached () \<lparr>pathname = ''/order/4%32'', search = ''?a=1'', hash = []\<rparr>
             \<lparr>entries = Map.empty, cacheCount = 0\<rparr>)) =
   map_completion (map_option shown)
     (fst (mount_cached True \<lparr>pathname = ''/order/4%32'', search = [], hash = ''#top''\<rparr>
             (snd (matchPath_cached ''/make'' (routes ! 2)
                     \<lparr>entries = Map.empty, cacheCount = 0\<rparr>))))"
proof -
  have a: "reachable \<lparr>entries = Map.empty, cacheCount = 0\<rparr>"
    by (rule reachable.start)
  have b: "reachable (snd (matchPath_cached ''/make'' (routes ! 2)
                             \<lparr>entries = Map.empty, cacheCount = 0\<rparr>))"
    by (rule reachable.call [OF a])
  have h: "pathname \<lparr>pathname = ''/order/4%32'', search = ''?a=1'', hash = []\<rparr> =
     pathname \<lparr>pathname = ''/order/4%32'', search = [], hash = ''#top''\<rparr>"
    by simp
  from dispatch_depends_on_pathname_only [OF a b h, of "()" True] a b h
  show ?thesis by blast
qed

end
